theory Spec2Isabelle
  imports Main "HOL-Library.Multiset"
begin

section \<open>The museum to-do list (array-script.js)\<close>

text \<open>
  The script keeps a page-global array \<open>tasks\<close> and a counter \<open>window.nextId\<close>.
  Every function of the script is modelled as a function on the pair of both, the
  record \<open>store\<close>. What a function tells the user with \<open>alert\<close> is returned next to
  the new store; the answers of \<open>prompt\<close> and \<open>confirm\<close> and the reading of the
  clock by \<open>new Date()\<close> are arguments.

  Strings are \<open>string\<close>; a \<open>char\<close> stands for the UTF-16 code unit of the same
  number, so the model covers the strings whose code units are below 256.
  Ids are JavaScript numbers that hold integers: \<open>index + 1\<close>, \<open>Math.max(...) + 1\<close> and
  \<open>nextId++\<close> are exact below \<open>2^53\<close>, and they are natural numbers here.

  The repository has a second script with the same functions over a \<open>Map\<close>. It is
  modelled after the first one, and the last part of the properties shows that it
  computes what the first one computes.
\<close>

subsection \<open>Strings: trim, toLowerCase, includes and the date pattern\<close>

definition isWhiteSpace :: "char \<Rightarrow> bool" where
  \<comment> \<open>WhiteSpace and LineTerminator code units below 256:
      TAB, LF, VT, FF, CR, SP and NBSP.\<close>
  "isWhiteSpace c = ((of_char c :: nat) \<in> {9, 10, 11, 12, 13, 32, 160})"

definition trim :: "string \<Rightarrow> string" where
  \<comment> \<open>\<open>String.prototype.trim\<close>\<close>
  "trim s = rev (dropWhile isWhiteSpace (rev (dropWhile isWhiteSpace s)))"

definition toLowerCaseChar :: "char \<Rightarrow> char" where
  \<comment> \<open>The simple lower-case mapping below 256: A-Z, and the Latin-1 capitals
      U+00C0-U+00DE without the multiplication sign U+00D7.\<close>
  "toLowerCaseChar c =
     (let n = (of_char c :: nat)
      in if (65 \<le> n \<and> n \<le> 90) \<or> (192 \<le> n \<and> n \<le> 222 \<and> n \<noteq> 215)
         then char_of (n + 32) else c)"

definition toLowerCase :: "string \<Rightarrow> string" where
  "toLowerCase s = map toLowerCaseChar s"

fun startsWith :: "string \<Rightarrow> string \<Rightarrow> bool" where
  "startsWith s [] = True"
| "startsWith [] (p # ps) = False"
| "startsWith (c # cs) (p # ps) = (c = p \<and> startsWith cs ps)"

fun includes_str :: "string \<Rightarrow> string \<Rightarrow> bool" where
  \<comment> \<open>\<open>s.includes(p)\<close>: \<open>p\<close> occurs in \<open>s\<close> at some position.\<close>
  "includes_str [] p = (p = [])"
| "includes_str (c # cs) p = (startsWith (c # cs) p \<or> includes_str cs p)"

definition isDigit :: "char \<Rightarrow> bool" where
  \<comment> \<open>\<open>\d\<close> without the unicode flag: 0-9\<close>
  "isDigit c = (48 \<le> (of_char c :: nat) \<and> (of_char c :: nat) \<le> 57)"

fun digits :: "nat \<Rightarrow> string \<Rightarrow> string option" where
  \<comment> \<open>\<open>\d{n}\<close> at the head of the input; the rest of the input on a match\<close>
  "digits 0 s = Some s"
| "digits (Suc n) [] = None"
| "digits (Suc n) (c # cs) = (if isDigit c then digits n cs else None)"

fun hyphen :: "string \<Rightarrow> string option" where
  "hyphen [] = None"
| "hyphen (c # cs) = (if c = CHR ''-'' then Some cs else None)"

definition dateRegex_test :: "string \<Rightarrow> bool" where
  \<comment> \<open>\<open>/^\d{4}-\d{2}-\d{2}$/.test(s)\<close>; no flag, so the anchors are the two
      ends of the input\<close>
  "dateRegex_test s =
     (case digits 4 s of None \<Rightarrow> False | Some r1 \<Rightarrow>
      case hyphen r1 of None \<Rightarrow> False | Some r2 \<Rightarrow>
      case digits 2 r2 of None \<Rightarrow> False | Some r3 \<Rightarrow>
      case hyphen r3 of None \<Rightarrow> False | Some r4 \<Rightarrow>
      case digits 2 r4 of None \<Rightarrow> False | Some r5 \<Rightarrow> r5 = [])"

subsection \<open>Task, the store and the seed data\<close>

record task =
  id_t :: nat
  name :: string
  date :: string
  completed :: bool
  createdAt :: string

definition Task :: "string \<Rightarrow> nat \<Rightarrow> string \<Rightarrow> string \<Rightarrow> bool \<Rightarrow> task" where
  \<comment> \<open>The constructor; \<open>now\<close> is what \<open>new Date().toISOString()\<close> returns.\<close>
  "Task now i n d c = \<lparr>id_t = i, name = n, date = d, completed = c, createdAt = now\<rparr>"

record store =
  tasks :: "task list"
  nextId :: nat

record museum =
  m_name :: string
  m_date :: string
  m_completed :: bool

definition initialMuseums :: "museum list" where
  "initialMuseums =
    [\<lparr>m_name = ''Museo Civico Archeologico'', m_date = ''2024-02-15'', m_completed = False\<rparr>,
     \<lparr>m_name = ''Pinacoteca Nazionale di Bologna'', m_date = ''2024-02-20'', m_completed = True\<rparr>,
     \<lparr>m_name = ''Museo della Storia di Bologna'', m_date = ''2024-03-01'', m_completed = False\<rparr>,
     \<lparr>m_name = ''MAMbo - Museo d'Arte Moderna di Bologna'', m_date = ''2024-03-10'',
      m_completed = False\<rparr>,
     \<lparr>m_name = ''Museo Internazionale della Musica'', m_date = ''2024-03-15'', m_completed = True\<rparr>,
     \<lparr>m_name = ''Museo Civico Medievale'', m_date = ''2024-03-20'', m_completed = False\<rparr>,
     \<lparr>m_name = ''Museo di Palazzo Poggi'', m_date = ''2024-04-01'', m_completed = False\<rparr>,
     \<lparr>m_name = ''Museo della Tappezzeria'', m_date = ''2024-04-05'', m_completed = False\<rparr>]"

datatype alert =
    EmptyName           \<comment> \<open>\<open>alert('Inserisci il nome del museo!')\<close>\<close>
  | MissingDate         \<comment> \<open>\<open>alert('Seleziona una data!')\<close>\<close>
  | InvalidDateFormat   \<comment> \<open>\<open>alert('Formato data non valido! Usa YYYY-MM-DD')\<close>\<close>
  | EmptyStore          \<comment> \<open>\<open>alert('Non ci sono musei nella lista!')\<close> of markAllAsCompleted,
                            \<open>alert('La lista e gia vuota!')\<close> of clearAll\<close>
  | NothingToClear      \<comment> \<open>\<open>alert('Non ci sono musei visitati da rimuovere!')\<close>\<close>

subsection \<open>init and updateNextId\<close>

definition Math_max :: "nat list \<Rightarrow> nat" where
  \<comment> \<open>\<open>Math.max(...xs)\<close>; it starts from \<open>-Infinity\<close>, which is 0 on natural numbers.
      The script calls it on a non-empty list only.\<close>
  "Math_max xs = fold max xs 0"

definition updateNextId :: "store \<Rightarrow> store" where
  "updateNextId s =
     (if length (tasks s) = 0 then s\<lparr>nextId := 1\<rparr>
      else s\<lparr>nextId := Math_max (map id_t (tasks s)) + 1\<rparr>)"

definition init :: "(nat \<Rightarrow> string) \<Rightarrow> store \<Rightarrow> store" where
  \<comment> \<open>\<open>clock index\<close> is the time read when the Task of seed entry \<open>index\<close> is made.\<close>
  "init clock s =
     updateNextId (s\<lparr>tasks :=
       map (\<lambda>(index, museum).
              Task (clock index) (index + 1) (m_name museum) (m_date museum) (m_completed museum))
           (enumerate 0 initialMuseums)\<rparr>)"

subsection \<open>addTask, toggleDone, removeTask and editTask\<close>

definition addTask :: "string \<Rightarrow> string \<Rightarrow> string option \<Rightarrow> store \<Rightarrow> alert option \<times> store" where
  \<comment> \<open>\<open>d = None\<close> is a date that is \<open>null\<close> or \<open>undefined\<close>; the empty string is
      the other falsy date.\<close>
  "addTask now n d s =
     (if trim n = [] then (Some EmptyName, s)
      else case d of
        None \<Rightarrow> (Some MissingDate, s)
      | Some dv \<Rightarrow>
          if dv = [] then (Some MissingDate, s)
          else (None, s\<lparr>tasks := tasks s @ [Task now (nextId s) (trim n) dv False],
                         nextId := nextId s + 1\<rparr>))"

fun update_first :: "('a \<Rightarrow> bool) \<Rightarrow> ('a \<Rightarrow> 'a) \<Rightarrow> 'a list \<Rightarrow> 'a list" where
  \<comment> \<open>An assignment to a field of the object that \<open>tasks.find(P)\<close> returned: the
      first element with \<open>P\<close> changes, in its place.\<close>
  "update_first P f [] = []"
| "update_first P f (x # xs) = (if P x then f x # xs else x # update_first P f xs)"

definition toggleDone :: "nat \<Rightarrow> store \<Rightarrow> store" where
  "toggleDone taskId s =
     (case find (\<lambda>t. id_t t = taskId) (tasks s) of
        None \<Rightarrow> s
      | Some task \<Rightarrow>
          s\<lparr>tasks := update_first (\<lambda>t. id_t t = taskId)
                         (\<lambda>t. t\<lparr>completed := \<not> completed t\<rparr>) (tasks s)\<rparr>)"

definition removeTask :: "nat \<Rightarrow> bool \<Rightarrow> store \<Rightarrow> store" where
  \<comment> \<open>\<open>confirmed\<close> is the answer of \<open>confirm\<close>.\<close>
  "removeTask taskId confirmed s =
     (if confirmed then s\<lparr>tasks := filter (\<lambda>t. id_t t \<noteq> taskId) (tasks s)\<rparr> else s)"

definition editTask :: "nat \<Rightarrow> string option \<Rightarrow> string option \<Rightarrow> store \<Rightarrow> alert option \<times> store" where
  \<comment> \<open>\<open>newName\<close> and \<open>newDate\<close> are the answers of the two prompts, \<open>None\<close> for
      \<open>null\<close> (the prompt was cancelled).\<close>
  "editTask taskId newName newDate s =
     (case find (\<lambda>t. id_t t = taskId) (tasks s) of
        None \<Rightarrow> (None, s)
      | Some task \<Rightarrow>
          (let s1 = (case newName of
                       None \<Rightarrow> s
                     | Some nn \<Rightarrow>
                         (if nn \<noteq> [] \<and> trim nn \<noteq> [] \<and> trim nn \<noteq> name task
                          then s\<lparr>tasks := update_first (\<lambda>t. id_t t = taskId)
                                              (\<lambda>t. t\<lparr>name := trim nn\<rparr>) (tasks s)\<rparr>
                          else s))
           in (case newDate of
                 None \<Rightarrow> (None, s1)
               | Some nd \<Rightarrow>
                   (if nd \<noteq> [] \<and> nd \<noteq> date task then
                      (if dateRegex_test nd
                       then (None, s1\<lparr>tasks := update_first (\<lambda>t. id_t t = taskId)
                                                  (\<lambda>t. t\<lparr>date := nd\<rparr>) (tasks s1)\<rparr>)
                       else (Some InvalidDateFormat, s1))
                    else (None, s1)))))"

subsection \<open>render and updateStats\<close>

definition matchesStatus :: "string \<Rightarrow> task \<Rightarrow> bool" where
  "matchesStatus statusFilter t =
     (statusFilter = ''all'' \<or>
      (statusFilter = ''pending'' \<and> \<not> completed t) \<or>
      (statusFilter = ''completed'' \<and> completed t))"

definition matchesSearch :: "string \<Rightarrow> task \<Rightarrow> bool" where
  \<comment> \<open>\<open>searchTerm\<close> is the search field's text, already in lower case.\<close>
  "matchesSearch searchTerm t = includes_str (toLowerCase (name t)) searchTerm"

record browser =
  localeCompare :: "string \<Rightarrow> string \<Rightarrow> int"
  \<comment> \<open>\<open>a.localeCompare(b)\<close>, which the browser's collation decides\<close>
  dateValue :: "string \<Rightarrow> int option"
  \<comment> \<open>the time value of \<open>new Date(s)\<close>, \<open>None\<close> for an invalid date\<close>

definition compareTasks :: "browser \<Rightarrow> string \<Rightarrow> task \<Rightarrow> task \<Rightarrow> int" where
  \<comment> \<open>The comparison function given to \<open>sort\<close>. A difference with an invalid date
      is \<open>NaN\<close>, which \<open>sort\<close> reads as 0.\<close>
  "compareTasks env sortBy a b =
     (if sortBy = ''name'' then localeCompare env (name a) (name b)
      else if sortBy = ''date'' then
        (case (dateValue env (date a), dateValue env (date b)) of
           (Some x, Some y) \<Rightarrow> x - y
         | _ \<Rightarrow> 0)
      else if sortBy = ''status'' then
        (if completed a then 1 else 0) - (if completed b then 1 else 0)
      else 0)"

fun insert_cmp :: "('a \<Rightarrow> 'a \<Rightarrow> int) \<Rightarrow> 'a \<Rightarrow> 'a list \<Rightarrow> 'a list" where
  "insert_cmp cmp x [] = [x]"
| "insert_cmp cmp x (y # ys) =
     (if cmp x y > 0 then y # insert_cmp cmp x ys else x # y # ys)"

fun sort_cmp :: "('a \<Rightarrow> 'a \<Rightarrow> int) \<Rightarrow> 'a list \<Rightarrow> 'a list" where
  \<comment> \<open>\<open>Array.prototype.sort(cmp)\<close>, a stable sort: an element moves behind the
      elements that \<open>cmp\<close> puts before it, and keeps its place among equals.\<close>
  "sort_cmp cmp [] = []"
| "sort_cmp cmp (x # xs) = insert_cmp cmp x (sort_cmp cmp xs)"

definition render :: "browser \<Rightarrow> string \<Rightarrow> string \<Rightarrow> string \<Rightarrow> store \<Rightarrow> task list" where
  \<comment> \<open>\<open>statusFilter\<close>, \<open>searchInput\<close> and \<open>sortBy\<close> are the values of the three
      controls; the result is \<open>filteredTasks\<close> after the sort, the list that is
      written into the page.\<close>
  "render env statusFilter searchInput sortBy s =
     (let searchTerm = toLowerCase searchInput;
          filteredTasks = filter (\<lambda>t. matchesStatus statusFilter t \<and> matchesSearch searchTerm t)
                                 (tasks s)
      in sort_cmp (compareTasks env sortBy) filteredTasks)"

record stats =
  totalCount :: nat
  completedCount :: nat
  pendingCount :: int

definition updateStats :: "store \<Rightarrow> stats" where
  "updateStats s =
     (let total = length (tasks s);
          done = length (filter completed (tasks s))
      in \<lparr>totalCount = total, completedCount = done, pendingCount = int total - int done\<rparr>)"

subsection \<open>The bulk operations\<close>

definition markAllAsCompleted :: "bool \<Rightarrow> store \<Rightarrow> alert option \<times> store" where
  "markAllAsCompleted confirmed s =
     (if length (tasks s) = 0 then (Some EmptyStore, s)
      else if confirmed then (None, s\<lparr>tasks := map (\<lambda>t. t\<lparr>completed := True\<rparr>) (tasks s)\<rparr>)
      else (None, s))"

definition clearCompleted :: "bool \<Rightarrow> store \<Rightarrow> alert option \<times> store" where
  "clearCompleted confirmed s =
     (let completedTasks = filter completed (tasks s)
      in if length completedTasks = 0 then (Some NothingToClear, s)
         else if confirmed then (None, s\<lparr>tasks := filter (\<lambda>t. \<not> completed t) (tasks s)\<rparr>)
         else (None, s))"

definition clearAll :: "bool \<Rightarrow> store \<Rightarrow> alert option \<times> store" where
  "clearAll confirmed s =
     (if length (tasks s) = 0 then (Some EmptyStore, s)
      else if confirmed then (None, s\<lparr>tasks := [], nextId := 1\<rparr>)
      else (None, s))"

subsection \<open>Sessions\<close>

text \<open>
  What the page can do after it has loaded: one constructor for each function that a
  listener or an inline handler calls, with the arguments and the answers it gets.
\<close>

datatype event =
    Init "nat \<Rightarrow> string"
  | AddTask string string "string option"
  | ToggleDone nat
  | RemoveTask nat bool
  | EditTask nat "string option" "string option"
  | MarkAllAsCompleted bool
  | ClearCompleted bool
  | ClearAll bool

fun step :: "event \<Rightarrow> store \<Rightarrow> store" where
  "step (Init clock) s = init clock s"
| "step (AddTask now n d) s = snd (addTask now n d s)"
| "step (ToggleDone taskId) s = toggleDone taskId s"
| "step (RemoveTask taskId confirmed) s = removeTask taskId confirmed s"
| "step (EditTask taskId newName newDate) s = snd (editTask taskId newName newDate s)"
| "step (MarkAllAsCompleted confirmed) s = snd (markAllAsCompleted confirmed s)"
| "step (ClearCompleted confirmed) s = snd (clearCompleted confirmed s)"
| "step (ClearAll confirmed) s = snd (clearAll confirmed s)"

definition run :: "event list \<Rightarrow> store \<Rightarrow> store" where
  "run evs s = fold step evs s"

text \<open>
  Fixed inputs for the examples: a clock that stands still, and the store as the
  script leaves it before \<open>init\<close> runs (\<open>let tasks = []\<close>; \<open>window.nextId\<close> is not set
  yet, and \<open>init\<close> writes it before anything reads it).
\<close>

definition epoch :: "nat \<Rightarrow> string" where
  "epoch index = ''1970-01-01T00:00:00.000Z''"

definition page_loaded :: store where
  "page_loaded = \<lparr>tasks = [], nextId = 0\<rparr>"

definition plain_browser :: browser where
  \<comment> \<open>A browser for the examples whose collation holds all names equal and that
      reads no text as a date.\<close>
  "plain_browser = \<lparr>localeCompare = (\<lambda>a b. 0), dateValue = (\<lambda>d. None)\<rparr>"

subsection \<open>Predicates on events and stores\<close>

fun valid_add :: "event \<Rightarrow> bool" where
  \<comment> \<open>a call of \<open>addTask\<close> with a name that is not blank and a truthy date\<close>
  "valid_add (AddTask now n d) = (trim n \<noteq> [] \<and> d \<noteq> None \<and> d \<noteq> Some [])"
| "valid_add _ = False"

fun add_date_ok :: "event \<Rightarrow> bool" where
  \<comment> \<open>everything but a call of \<open>addTask\<close> with a date that the pattern refuses\<close>
  "add_date_ok (AddTask now n (Some dv)) = dateRegex_test dv"
| "add_date_ok _ = True"

definition ids :: "store \<Rightarrow> nat list" where
  "ids s = map id_t (tasks s)"

definition ids_ok :: "store \<Rightarrow> bool" where
  \<comment> \<open>no id twice, and every id below \<open>nextId\<close>\<close>
  "ids_ok s = (distinct (ids s) \<and> list_all (\<lambda>i. i < nextId s) (ids s))"

section \<open>The same page with a Map (the second script)\<close>

text \<open>
  The second script keeps the museums in \<open>tasksMap\<close>, a \<open>Map\<close> from ids to Task
  objects, and is the first script otherwise. A \<open>Map\<close> keeps its entries in the order
  in which their keys were first set, so it is the list of its entries here.
\<close>

definition Map_get :: "nat \<Rightarrow> (nat \<times> task) list \<Rightarrow> task option" where
  "Map_get k m = map_of m k"

definition Map_set :: "nat \<Rightarrow> task \<Rightarrow> (nat \<times> task) list \<Rightarrow> (nat \<times> task) list" where
  \<comment> \<open>\<open>m.set(k, v)\<close>: a key that is there keeps its place, a new key goes to the end.\<close>
  "Map_set k v m =
     (if k \<in> set (map fst m)
      then map (\<lambda>(k', v'). if k' = k then (k', v) else (k', v')) m
      else m @ [(k, v)])"

definition Map_delete :: "nat \<Rightarrow> (nat \<times> task) list \<Rightarrow> (nat \<times> task) list" where
  "Map_delete k m = filter (\<lambda>(k', v'). k' \<noteq> k) m"

definition Map_values :: "(nat \<times> task) list \<Rightarrow> task list" where
  "Map_values m = map snd m"

definition Map_assign :: "nat \<Rightarrow> (task \<Rightarrow> task) \<Rightarrow> (nat \<times> task) list \<Rightarrow> (nat \<times> task) list" where
  \<comment> \<open>An assignment to a field of the object that \<open>m.get(k)\<close> returned.\<close>
  "Map_assign k f m = update_first (\<lambda>(k', v'). k' = k) (\<lambda>(k', v'). (k', f v')) m"

record map_store =
  tasksMap :: "(nat \<times> task) list"
  nextId_m :: nat

definition initialMuseums_m :: "museum list" where
  "initialMuseums_m =
    [\<lparr>m_name = ''Museo Civico Archeologico'', m_date = ''2025-02-15'', m_completed = False\<rparr>,
     \<lparr>m_name = ''Pinacoteca Nazionale di Bologna'', m_date = ''2025-02-20'', m_completed = True\<rparr>,
     \<lparr>m_name = ''Museo della Storia di Bologna'', m_date = ''2025-03-01'', m_completed = False\<rparr>,
     \<lparr>m_name = ''MAMbo - Museo d'Arte Moderna di Bologna'', m_date = ''2025-03-10'',
      m_completed = False\<rparr>,
     \<lparr>m_name = ''Museo Internazionale della Musica'', m_date = ''2025-03-15'', m_completed = True\<rparr>,
     \<lparr>m_name = ''Museo Civico Medievale'', m_date = ''2025-03-20'', m_completed = False\<rparr>,
     \<lparr>m_name = ''Museo di Palazzo Poggi'', m_date = ''2025-04-01'', m_completed = False\<rparr>,
     \<lparr>m_name = ''Museo della Tappezzeria'', m_date = ''2025-04-05'', m_completed = False\<rparr>]"

definition updateNextId_m :: "map_store \<Rightarrow> map_store" where
  "updateNextId_m s =
     (if length (tasksMap s) = 0 then s\<lparr>nextId_m := 1\<rparr>
      else s\<lparr>nextId_m :=
             fold (\<lambda>i maxId. if i > maxId then i else maxId) (map fst (tasksMap s)) 0 + 1\<rparr>)"

definition init_m :: "(nat \<Rightarrow> string) \<Rightarrow> map_store \<Rightarrow> map_store" where
  \<comment> \<open>The entries are set into the Map as it is; nothing is cleared first.\<close>
  "init_m clock s =
     updateNextId_m (s\<lparr>tasksMap :=
       fold (\<lambda>(index, museum) m.
               Map_set (index + 1)
                 (Task (clock index) (index + 1) (m_name museum) (m_date museum)
                    (m_completed museum)) m)
            (enumerate 0 initialMuseums_m) (tasksMap s)\<rparr>)"

definition addTask_m :: "string \<Rightarrow> string \<Rightarrow> string option \<Rightarrow> map_store \<Rightarrow> alert option \<times> map_store" where
  "addTask_m now n d s =
     (if trim n = [] then (Some EmptyName, s)
      else case d of
        None \<Rightarrow> (Some MissingDate, s)
      | Some dv \<Rightarrow>
          if dv = [] then (Some MissingDate, s)
          else (None, s\<lparr>tasksMap := Map_set (nextId_m s)
                                        (Task now (nextId_m s) (trim n) dv False) (tasksMap s),
                         nextId_m := nextId_m s + 1\<rparr>))"

definition toggleDone_m :: "nat \<Rightarrow> map_store \<Rightarrow> map_store" where
  "toggleDone_m taskId s =
     (case Map_get taskId (tasksMap s) of
        None \<Rightarrow> s
      | Some task \<Rightarrow>
          s\<lparr>tasksMap := Map_assign taskId (\<lambda>t. t\<lparr>completed := \<not> completed t\<rparr>) (tasksMap s)\<rparr>)"

definition removeTask_m :: "nat \<Rightarrow> bool \<Rightarrow> map_store \<Rightarrow> map_store" where
  "removeTask_m taskId confirmed s =
     (if confirmed then s\<lparr>tasksMap := Map_delete taskId (tasksMap s)\<rparr> else s)"

definition editTask_m :: "nat \<Rightarrow> string option \<Rightarrow> string option \<Rightarrow> map_store \<Rightarrow> alert option \<times> map_store" where
  "editTask_m taskId newName newDate s =
     (case Map_get taskId (tasksMap s) of
        None \<Rightarrow> (None, s)
      | Some task \<Rightarrow>
          (let s1 = (case newName of
                       None \<Rightarrow> s
                     | Some nn \<Rightarrow>
                         (if nn \<noteq> [] \<and> trim nn \<noteq> [] \<and> trim nn \<noteq> name task
                          then s\<lparr>tasksMap := Map_assign taskId (\<lambda>t. t\<lparr>name := trim nn\<rparr>)
                                                (tasksMap s)\<rparr>
                          else s))
           in (case newDate of
                 None \<Rightarrow> (None, s1)
               | Some nd \<Rightarrow>
                   (if nd \<noteq> [] \<and> nd \<noteq> date task then
                      (if dateRegex_test nd
                       then (None, s1\<lparr>tasksMap := Map_assign taskId (\<lambda>t. t\<lparr>date := nd\<rparr>)
                                                    (tasksMap s1)\<rparr>)
                       else (Some InvalidDateFormat, s1))
                    else (None, s1)))))"

definition render_m :: "browser \<Rightarrow> string \<Rightarrow> string \<Rightarrow> string \<Rightarrow> map_store \<Rightarrow> task list" where
  \<comment> \<open>The loop pushes every value that passes both filters, in the Map's order.\<close>
  "render_m env statusFilter searchInput sortBy s =
     (let searchTerm = toLowerCase searchInput;
          filteredTasks =
            fold (\<lambda>t acc. if matchesStatus statusFilter t \<and> matchesSearch searchTerm t
                           then acc @ [t] else acc)
                 (Map_values (tasksMap s)) []
      in sort_cmp (compareTasks env sortBy) filteredTasks)"

definition updateStats_m :: "map_store \<Rightarrow> stats" where
  "updateStats_m s =
     (let (total, done) =
            fold (\<lambda>t (totalCount, completedCount).
                    (totalCount + 1, if completed t then completedCount + 1 else completedCount))
                 (Map_values (tasksMap s)) (0, 0)
      in \<lparr>totalCount = total, completedCount = done, pendingCount = int total - int done\<rparr>)"

definition markAllAsCompleted_m :: "bool \<Rightarrow> map_store \<Rightarrow> alert option \<times> map_store" where
  "markAllAsCompleted_m confirmed s =
     (if length (tasksMap s) = 0 then (Some EmptyStore, s)
      else if confirmed
           then (None, s\<lparr>tasksMap := map (\<lambda>(k, t). (k, t\<lparr>completed := True\<rparr>)) (tasksMap s)\<rparr>)
           else (None, s))"

definition clearCompleted_m :: "bool \<Rightarrow> map_store \<Rightarrow> alert option \<times> map_store" where
  \<comment> \<open>The second loop deletes the entry it stands on; the entries after it are still
      visited.\<close>
  "clearCompleted_m confirmed s =
     (let completedCount = fold (\<lambda>t c. if completed t then c + 1 else c)
                                (Map_values (tasksMap s)) (0::nat)
      in if completedCount = 0 then (Some NothingToClear, s)
         else if confirmed
              then (None, s\<lparr>tasksMap := fold (\<lambda>(k, t) m. if completed t then Map_delete k m else m)
                                             (tasksMap s) (tasksMap s)\<rparr>)
              else (None, s))"

definition clearAll_m :: "bool \<Rightarrow> map_store \<Rightarrow> alert option \<times> map_store" where
  "clearAll_m confirmed s =
     (if length (tasksMap s) = 0 then (Some EmptyStore, s)
      else if confirmed then (None, s\<lparr>tasksMap := [], nextId_m := 1\<rparr>)
      else (None, s))"

fun react :: "event \<Rightarrow> store \<Rightarrow> alert option \<times> store" where
  "react (Init clock) s = (None, init clock s)"
| "react (AddTask now n d) s = addTask now n d s"
| "react (ToggleDone taskId) s = (None, toggleDone taskId s)"
| "react (RemoveTask taskId confirmed) s = (None, removeTask taskId confirmed s)"
| "react (EditTask taskId newName newDate) s = editTask taskId newName newDate s"
| "react (MarkAllAsCompleted confirmed) s = markAllAsCompleted confirmed s"
| "react (ClearCompleted confirmed) s = clearCompleted confirmed s"
| "react (ClearAll confirmed) s = clearAll confirmed s"

fun react_m :: "event \<Rightarrow> map_store \<Rightarrow> alert option \<times> map_store" where
  "react_m (Init clock) s = (None, init_m clock s)"
| "react_m (AddTask now n d) s = addTask_m now n d s"
| "react_m (ToggleDone taskId) s = (None, toggleDone_m taskId s)"
| "react_m (RemoveTask taskId confirmed) s = (None, removeTask_m taskId confirmed s)"
| "react_m (EditTask taskId newName newDate) s = editTask_m taskId newName newDate s"
| "react_m (MarkAllAsCompleted confirmed) s = markAllAsCompleted_m confirmed s"
| "react_m (ClearCompleted confirmed) s = clearCompleted_m confirmed s"
| "react_m (ClearAll confirmed) s = clearAll_m confirmed s"

definition values_of :: "map_store \<Rightarrow> store" where
  \<comment> \<open>the array of the Map's values, with the same counter\<close>
  "values_of s = \<lparr>tasks = Map_values (tasksMap s), nextId = nextId_m s\<rparr>"

definition keyed :: "map_store \<Rightarrow> bool" where
  \<comment> \<open>every entry stands under the id of its Task, and the ids are as \<open>ids_ok\<close> says\<close>
  "keyed s = (map fst (tasksMap s) = map id_t (Map_values (tasksMap s)) \<and> ids_ok (values_of s))"

fun is_Init :: "event \<Rightarrow> bool" where
  "is_Init (Init clock) = True"
| "is_Init _ = False"

definition entries :: "task list \<Rightarrow> (nat \<times> task) list" where
  "entries ts = map (\<lambda>t. (id_t t, t)) ts"

definition of_array :: "store \<Rightarrow> map_store" where
  "of_array a = \<lparr>tasksMap = entries (tasks a), nextId_m = nextId a\<rparr>"

definition run_m :: "event list \<Rightarrow> map_store \<Rightarrow> map_store" where
  "run_m evs s = fold (\<lambda>ev s. snd (react_m ev s)) evs s"

definition page_loaded_m :: map_store where
  \<comment> \<open>\<open>let tasksMap = new Map()\<close>, and \<open>window.nextId\<close> not set yet\<close>
  "page_loaded_m = \<lparr>tasksMap = [], nextId_m = 0\<rparr>"

section \<open>Properties\<close>

subsection \<open>The seed store and its statistics\<close>

lemma init_eq:
  "init clock s = s\<lparr>tasks :=
      [Task (clock 0) 1 ''Museo Civico Archeologico'' ''2024-02-15'' False,
       Task (clock 1) 2 ''Pinacoteca Nazionale di Bologna'' ''2024-02-20'' True,
       Task (clock 2) 3 ''Museo della Storia di Bologna'' ''2024-03-01'' False,
       Task (clock 3) 4 ''MAMbo - Museo d'Arte Moderna di Bologna'' ''2024-03-10'' False,
       Task (clock 4) 5 ''Museo Internazionale della Musica'' ''2024-03-15'' True,
       Task (clock 5) 6 ''Museo Civico Medievale'' ''2024-03-20'' False,
       Task (clock 6) 7 ''Museo di Palazzo Poggi'' ''2024-04-01'' False,
       Task (clock 7) 8 ''Museo della Tappezzeria'' ''2024-04-05'' False],
     nextId := 9\<rparr>"
  by (simp add: init_def updateNextId_def initialMuseums_def Math_max_def Task_def
      eval_nat_numeral)

lemma length_tasks_init: "length (tasks (init clock s)) = 8"
  by (simp add: init_eq)

lemma completedCount_init: "length (filter completed (tasks (init clock s))) = 2"
  by (simp add: init_eq Task_def)

text \<open>
  C1, as the claim states it: after \<open>init\<close> the dashboard shows 8 museums, 3 visited and
  5 to visit. The seed list marks two museums as visited (the second and the fifth), so
  the three numbers are not 8, 3 and 5.
\<close>

theorem seed_stats_not_8_3_5:
  "\<not> (totalCount (updateStats (init epoch page_loaded)) = 8 \<and>
      completedCount (updateStats (init epoch page_loaded)) = 3 \<and>
      pendingCount (updateStats (init epoch page_loaded)) = 5)"
  by (simp add: updateStats_def Let_def completedCount_init)

text \<open>
  C1, amended: after \<open>init\<close> the dashboard shows 8 museums, 2 visited and 6 to visit,
  whatever the store held before; and in every store the number to visit is the total
  minus the number visited, which is never more than the total.
\<close>

theorem seed_stats:
  "updateStats (init clock s) = \<lparr>totalCount = 8, completedCount = 2, pendingCount = 6\<rparr> \<and>
   pendingCount (updateStats s') =
     int (totalCount (updateStats s')) - int (completedCount (updateStats s')) \<and>
   completedCount (updateStats s') \<le> totalCount (updateStats s')"
  by (simp add: updateStats_def Let_def length_tasks_init completedCount_init)

subsection \<open>editTask\<close>

lemma find_update_first:
  "(\<And>x. P x \<Longrightarrow> P (f x)) \<Longrightarrow> find P (update_first P f xs) = map_option f (find P xs)"
  by (induction xs) auto

lemma find_id_Some:
  assumes "taskId \<in> id_t ` set (tasks s)"
  obtains t where "find (\<lambda>t. id_t t = taskId) (tasks s) = Some t"
  using assms by (cases "find (\<lambda>t. id_t t = taskId) (tasks s)") (auto simp: find_None_iff)

lemma dateRegex_2025_13_40: "dateRegex_test ''2025-13-40''"
  by (simp add: dateRegex_test_def eval_nat_numeral isDigit_def)

text \<open>
  C2, as the claim states it: \<open>edit(id, null, "2025-13-40")\<close> is rejected with
  InvalidDateFormat and the date stays. On the seed store, for the museum with id 1,
  \<open>editTask\<close> shows no such alert and the dates in the store are no longer the same:
  the text has the shape that the pattern asks for, and the pattern is the only check.
\<close>

theorem edit_2025_13_40_on_seed:
  "fst (editTask 1 None (Some ''2025-13-40'') (init epoch page_loaded)) \<noteq> Some InvalidDateFormat \<and>
   map date (tasks (snd (editTask 1 None (Some ''2025-13-40'') (init epoch page_loaded))))
     \<noteq> map date (tasks (init epoch page_loaded))"
  by (simp add: editTask_def init_eq Task_def dateRegex_2025_13_40)

text \<open>
  C2, amended: for every id of a museum in the store, \<open>edit(id, null, "2025-13-40")\<close>
  is accepted: no alert is shown, and afterwards the date of that museum is
  \<open>2025-13-40\<close>.
\<close>

theorem edit_2025_13_40_accepted:
  assumes "taskId \<in> id_t ` set (tasks s)"
  shows "fst (editTask taskId None (Some ''2025-13-40'') s) = None \<and>
         map_option date (find (\<lambda>t. id_t t = taskId)
            (tasks (snd (editTask taskId None (Some ''2025-13-40'') s)))) = Some ''2025-13-40''"
proof -
  from assms obtain t where t: "find (\<lambda>t. id_t t = taskId) (tasks s) = Some t"
    by (rule find_id_Some)
  show ?thesis
    using t by (simp add: editTask_def dateRegex_2025_13_40 find_update_first)
qed

text \<open>C2, amended, on the seed store and the museum with id 1.\<close>

theorem edit_2025_13_40_accepted_witness:
  "(1::nat) \<in> id_t ` set (tasks (init epoch page_loaded)) \<and>
   fst (editTask 1 None (Some ''2025-13-40'') (init epoch page_loaded)) = None \<and>
   map_option date (find (\<lambda>t. id_t t = 1)
      (tasks (snd (editTask 1 None (Some ''2025-13-40'') (init epoch page_loaded)))))
     = Some ''2025-13-40''"
proof -
  have h: "(1::nat) \<in> id_t ` set (tasks (init epoch page_loaded))"
    by (simp add: init_eq Task_def)
  from edit_2025_13_40_accepted[OF h] h show ?thesis by simp
qed

subsection \<open>render: which museums are listed\<close>

lemma startsWith_iff: "startsWith s p \<longleftrightarrow> (\<exists>v. s = p @ v)"
  by (induction s p rule: startsWith.induct) auto

lemma includes_str_iff: "includes_str s p \<longleftrightarrow> (\<exists>u v. s = u @ p @ v)"
proof (induction s)
  case Nil
  then show ?case by auto
next
  case (Cons c cs)
  have "(\<exists>u v. c # cs = u @ p @ v) \<longleftrightarrow> (\<exists>v. c # cs = p @ v) \<or> (\<exists>u' v. cs = u' @ p @ v)"
    (is "?L \<longleftrightarrow> ?R")
  proof
    assume ?L
    then obtain u v where uv: "c # cs = u @ p @ v" by blast
    show ?R
    proof (cases u)
      case Nil
      with uv show ?thesis by auto
    next
      case (Cons a u')
      with uv show ?thesis by auto
    qed
  next
    assume ?R
    then show ?L
    proof
      assume "\<exists>v. c # cs = p @ v"
      then obtain v where "c # cs = [] @ p @ v" by auto
      then show ?L by blast
    next
      assume "\<exists>u' v. cs = u' @ p @ v"
      then obtain u' v where "c # cs = (c # u') @ p @ v" by auto
      then show ?L by blast
    qed
  qed
  with Cons show ?case by (simp add: startsWith_iff)
qed

lemma includes_str_empty: "includes_str s []"
proof -
  have "s = [] @ [] @ s" by simp
  then show ?thesis unfolding includes_str_iff by blast
qed

lemma mset_insert_cmp: "mset (insert_cmp cmp x xs) = add_mset x (mset xs)"
  by (induction xs) auto

lemma mset_sort_cmp: "mset (sort_cmp cmp xs) = mset xs"
  by (induction xs) (auto simp: mset_insert_cmp)

lemma mset_render:
  "mset (render env statusFilter searchInput sortBy s) =
     mset (filter (\<lambda>t. matchesStatus statusFilter t \<and> matchesSearch (toLowerCase searchInput) t)
            (tasks s))"
  by (simp add: render_def Let_def mset_sort_cmp)

lemma seed_names_museo:
  "toLowerCase ''museo'' = ''museo''"
  "includes_str (toLowerCase ''Museo Civico Archeologico'') ''museo''"
  "\<not> includes_str (toLowerCase ''Pinacoteca Nazionale di Bologna'') ''museo''"
  "includes_str (toLowerCase ''Museo della Storia di Bologna'') ''museo''"
  "includes_str (toLowerCase ''MAMbo - Museo d'Arte Moderna di Bologna'') ''museo''"
  "includes_str (toLowerCase ''Museo Internazionale della Musica'') ''museo''"
  "includes_str (toLowerCase ''Museo Civico Medievale'') ''museo''"
  "includes_str (toLowerCase ''Museo di Palazzo Poggi'') ''museo''"
  "includes_str (toLowerCase ''Museo della Tappezzeria'') ''museo''"
  by code_simp+

text \<open>
  C3, as the claim states it: on the seed store the search for \<open>museo\<close> lists all 8
  museums. With every status shown it does not list 8: the name
  \<open>Pinacoteca Nazionale di Bologna\<close> does not contain the search text.
\<close>

theorem museo_query_on_seed_not_8:
  "length (render plain_browser ''all'' ''museo'' ''status'' (init epoch page_loaded)) \<noteq> 8"
proof -
  have "size (mset (render plain_browser ''all'' ''museo'' ''status'' (init epoch page_loaded))) = 7"
    unfolding mset_render
    by (simp add: init_eq Task_def matchesStatus_def matchesSearch_def seed_names_museo)
  then show ?thesis by simp
qed

text \<open>
  C3, amended: on the seed store the search for \<open>museo\<close>, with any status filter and
  any sort key, lists exactly the museums that pass the status filter and whose name in
  lower case contains \<open>museo\<close>; with the filter \<open>all\<close> these are the 7
  museums with the ids 1, 3, 4, 5, 6, 7 and 8, each once.
\<close>

theorem museo_query_on_seed:
  "set (render env statusFilter ''museo'' sortBy (init clock s)) =
     {t \<in> set (tasks (init clock s)).
        (statusFilter = ''all'' \<or> (statusFilter = ''pending'' \<and> \<not> completed t) \<or>
         (statusFilter = ''completed'' \<and> completed t)) \<and>
        (\<exists>u v. toLowerCase (name t) = u @ ''museo'' @ v)} \<and>
   mset (map id_t (render env ''all'' ''museo'' sortBy (init clock s))) = mset [1, 3, 4, 5, 6, 7, 8]"
proof
  have "set (render env statusFilter ''museo'' sortBy (init clock s)) =
        set_mset (mset (render env statusFilter ''museo'' sortBy (init clock s)))"
    by simp
  also have "\<dots> = {t \<in> set (tasks (init clock s)).
        (statusFilter = ''all'' \<or> (statusFilter = ''pending'' \<and> \<not> completed t) \<or>
         (statusFilter = ''completed'' \<and> completed t)) \<and>
        (\<exists>u v. toLowerCase (name t) = u @ ''museo'' @ v)}"
    unfolding mset_render
    by (auto simp: matchesStatus_def matchesSearch_def includes_str_iff seed_names_museo(1))
  finally show "set (render env statusFilter ''museo'' sortBy (init clock s)) =
     {t \<in> set (tasks (init clock s)).
        (statusFilter = ''all'' \<or> (statusFilter = ''pending'' \<and> \<not> completed t) \<or>
         (statusFilter = ''completed'' \<and> completed t)) \<and>
        (\<exists>u v. toLowerCase (name t) = u @ ''museo'' @ v)}" .
next
  have "mset (map id_t (render env ''all'' ''museo'' sortBy (init clock s))) =
        image_mset id_t (mset (render env ''all'' ''museo'' sortBy (init clock s)))"
    by simp
  also have "\<dots> = mset [1, 3, 4, 5, 6, 7, 8]"
    unfolding mset_render
    by (simp add: init_eq Task_def matchesStatus_def matchesSearch_def seed_names_museo)
  finally show "mset (map id_t (render env ''all'' ''museo'' sortBy (init clock s))) =
    mset [1, 3, 4, 5, 6, 7, 8]" .
qed

text \<open>
  C9: for every store, status filter, search text and sort key, \<open>render\<close> lists a
  museum if and only if the status filter is \<open>all\<close>, or it is \<open>pending\<close> and the
  museum is not visited, or it is \<open>completed\<close> and the museum is visited, and the
  name in lower case contains the search text in lower case; every such museum is
  listed as often as the store holds it. The empty search text excludes nothing, and
  the filter \<open>pending\<close> with the empty search text lists exactly the museums that are
  not visited.
\<close>

theorem render_keeps:
  "mset (render env statusFilter searchText sortBy s) =
     filter_mset (\<lambda>t. (statusFilter = ''all'' \<or> (statusFilter = ''pending'' \<and> \<not> completed t) \<or>
                        (statusFilter = ''completed'' \<and> completed t)) \<and>
                       (\<exists>u v. toLowerCase (name t) = u @ toLowerCase searchText @ v))
                 (mset (tasks s)) \<and>
   set (render env statusFilter searchText sortBy s) =
     {t \<in> set (tasks s).
        (statusFilter = ''all'' \<or> (statusFilter = ''pending'' \<and> \<not> completed t) \<or>
         (statusFilter = ''completed'' \<and> completed t)) \<and>
        (\<exists>u v. toLowerCase (name t) = u @ toLowerCase searchText @ v)} \<and>
   mset (render env statusFilter [] sortBy s) =
     filter_mset (\<lambda>t. statusFilter = ''all'' \<or> (statusFilter = ''pending'' \<and> \<not> completed t) \<or>
                       (statusFilter = ''completed'' \<and> completed t))
                 (mset (tasks s)) \<and>
   mset (render env ''pending'' [] sortBy s) = filter_mset (\<lambda>t. \<not> completed t) (mset (tasks s))"
proof -
  have m: "mset (render env f q sortBy s) =
     filter_mset (\<lambda>t. (f = ''all'' \<or> (f = ''pending'' \<and> \<not> completed t) \<or>
                        (f = ''completed'' \<and> completed t)) \<and>
                       (\<exists>u v. toLowerCase (name t) = u @ toLowerCase q @ v))
                 (mset (tasks s))" for f q
    by (simp add: mset_render matchesStatus_def matchesSearch_def includes_str_iff)
  have e: "\<exists>u v. toLowerCase (name t) = u @ toLowerCase [] @ v" for t :: task
    using includes_str_empty[of "toLowerCase (name t)"]
    by (simp add: includes_str_iff toLowerCase_def)
  have s1: "set (render env statusFilter searchText sortBy s) =
        set_mset (mset (render env statusFilter searchText sortBy s))"
    by simp
  show ?thesis
    unfolding s1 unfolding m by (auto simp: e)
qed

subsection \<open>Rejections of addTask\<close>

text \<open>
  C6: in every store and for every date, \<open>addTask\<close> with a name that is empty after
  trimming shows the alert EmptyName; with a name that passes and a date that is
  missing or the empty string it shows the alert MissingDate. So a call with such a date
  is always rejected, with the alert for the name when the name is blank too, since the
  name is looked at first. In all these cases the store, \<open>nextId\<close> included, is
  returned as it was.
\<close>

theorem addTask_rejects:
  "(trim n = [] \<longrightarrow> addTask now n d s = (Some EmptyName, s)) \<and>
   (trim n \<noteq> [] \<and> (d = None \<or> d = Some []) \<longrightarrow> addTask now n d s = (Some MissingDate, s)) \<and>
   (d = None \<or> d = Some [] \<longrightarrow>
      fst (addTask now n d s) \<in> {Some EmptyName, Some MissingDate} \<and> snd (addTask now n d s) = s)"
  by (auto simp: addTask_def)

text \<open>
  C6 on the seed store: the empty name, a name of two spaces, and a name that passes
  with no date and with the empty date.
\<close>

theorem addTask_rejects_witness:
  "trim '''' = [] \<and>
   addTask (epoch 0) '''' (Some ''2025-01-01'') (init epoch page_loaded)
     = (Some EmptyName, init epoch page_loaded) \<and>
   trim ''  '' = [] \<and>
   addTask (epoch 0) ''  '' (Some ''2025-01-01'') (init epoch page_loaded)
     = (Some EmptyName, init epoch page_loaded) \<and>
   trim ''Museo Morandi'' \<noteq> [] \<and>
   addTask (epoch 0) ''Museo Morandi'' None (init epoch page_loaded)
     = (Some MissingDate, init epoch page_loaded) \<and>
   addTask (epoch 0) ''Museo Morandi'' (Some []) (init epoch page_loaded)
     = (Some MissingDate, init epoch page_loaded)"
proof -
  have a: "trim '''' = []" and b: "trim ''  '' = []" and c: "trim ''Museo Morandi'' \<noteq> []"
    by (simp_all add: trim_def isWhiteSpace_def)
  show ?thesis
    using a b c
      addTask_rejects[of "''''" "epoch 0" "Some ''2025-01-01''" "init epoch page_loaded"]
      addTask_rejects[of "''  ''" "epoch 0" "Some ''2025-01-01''" "init epoch page_loaded"]
      addTask_rejects[of "''Museo Morandi''" "epoch 0" None "init epoch page_loaded"]
      addTask_rejects[of "''Museo Morandi''" "epoch 0" "Some []" "init epoch page_loaded"]
    by simp
qed

subsection \<open>editTask: the name and the date are independent\<close>

lemma map_date_update_first_name:
  "map date (update_first P (\<lambda>t. t\<lparr>name := x\<rparr>) xs) = map date xs"
  by (induction xs) auto

text \<open>
  C7: for every id of a museum in the store, after \<open>editTask\<close> with a new name that is
  not empty after trimming, the museum has the trimmed new name, whatever the answer to
  the date prompt was (so a new name that differs from the old one is applied also when
  the date is refused); and whenever \<open>editTask\<close> shows the alert InvalidDateFormat,
  every date in the store is the one it was before.
\<close>

theorem editTask_name_and_date_independent:
  assumes "taskId \<in> id_t ` set (tasks s)"
  shows "(trim nn \<noteq> [] \<longrightarrow>
           map_option name (find (\<lambda>t. id_t t = taskId)
              (tasks (snd (editTask taskId (Some nn) newDate s)))) = Some (trim nn)) \<and>
         (fst (editTask taskId newName newDate s) = Some InvalidDateFormat \<longrightarrow>
           map date (tasks (snd (editTask taskId newName newDate s))) = map date (tasks s))"
proof -
  from assms obtain t where t: "find (\<lambda>t. id_t t = taskId) (tasks s) = Some t"
    by (rule find_id_Some)
  have "trim nn \<noteq> [] \<Longrightarrow> nn \<noteq> []"
    by (auto simp: trim_def)
  then have 1: "trim nn \<noteq> [] \<longrightarrow>
           map_option name (find (\<lambda>t. id_t t = taskId)
              (tasks (snd (editTask taskId (Some nn) newDate s)))) = Some (trim nn)"
    using t by (auto simp: editTask_def Let_def find_update_first split: option.splits)
  have 2: "fst (editTask taskId newName newDate s) = Some InvalidDateFormat \<longrightarrow>
           map date (tasks (snd (editTask taskId newName newDate s))) = map date (tasks s)"
    using t by (auto simp: editTask_def Let_def map_date_update_first_name split: option.splits if_splits)
  from 1 2 show ?thesis by blast
qed

lemma trim_name_example: "trim ''  Museo Archeologico '' = ''Museo Archeologico''"
  by (simp add: trim_def isWhiteSpace_def)

lemma dateRegex_slashes: "\<not> dateRegex_test ''15/02/2024''"
  by (simp add: dateRegex_test_def eval_nat_numeral isDigit_def)

text \<open>
  C7 on the seed store: the museum with id 1 gets a new name with spaces around it and
  a date with slashes. The alert is shown, the name is the trimmed one, the dates stay.
\<close>

theorem editTask_name_and_date_independent_witness:
  "(1::nat) \<in> id_t ` set (tasks (init epoch page_loaded)) \<and>
   trim ''  Museo Archeologico '' \<noteq> [] \<and>
   map_option name (find (\<lambda>t. id_t t = 1)
      (tasks (snd (editTask 1 (Some ''  Museo Archeologico '') (Some ''15/02/2024'')
                     (init epoch page_loaded))))) = Some ''Museo Archeologico'' \<and>
   fst (editTask 1 (Some ''  Museo Archeologico '') (Some ''15/02/2024'')
          (init epoch page_loaded)) = Some InvalidDateFormat \<and>
   map date (tasks (snd (editTask 1 (Some ''  Museo Archeologico '') (Some ''15/02/2024'')
                     (init epoch page_loaded)))) = map date (tasks (init epoch page_loaded))"
proof -
  have h: "(1::nat) \<in> id_t ` set (tasks (init epoch page_loaded))"
    by (simp add: init_eq Task_def)
  have a: "fst (editTask 1 (Some ''  Museo Archeologico '') (Some ''15/02/2024'')
          (init epoch page_loaded)) = Some InvalidDateFormat"
    by (simp add: editTask_def init_eq Task_def trim_name_example dateRegex_slashes)
  from editTask_name_and_date_independent[OF h,
      of "''  Museo Archeologico ''" "Some ''15/02/2024''" "Some ''  Museo Archeologico ''"]
    h a
  show ?thesis by (simp add: trim_name_example)
qed

subsection \<open>clearAll\<close>

text \<open>
  C8: when the user confirms, \<open>clearAll\<close> on a store that is not empty shows no alert,
  empties the array and sets \<open>nextId\<close> to 1, so that \<open>addTask("X", "2025-01-01")\<close>
  right after it leaves exactly one museum, with id 1; on an empty store \<open>clearAll\<close>
  shows the alert EmptyStore and returns the store as it was.
\<close>

theorem clearAll_resets:
  "(tasks s \<noteq> [] \<longrightarrow>
      clearAll True s = (None, s\<lparr>tasks := [], nextId := 1\<rparr>) \<and>
      map id_t (tasks (snd (addTask now ''X'' (Some ''2025-01-01'') (snd (clearAll True s))))) = [1]) \<and>
   (tasks s = [] \<longrightarrow> clearAll confirmed s = (Some EmptyStore, s))"
proof -
  have "trim ''X'' = ''X''"
    by (simp add: trim_def isWhiteSpace_def)
  then show ?thesis
    by (simp add: clearAll_def addTask_def Task_def)
qed

text \<open>C8 on the seed store, and on the empty store of the page before \<open>init\<close>.\<close>

theorem clearAll_resets_witness:
  "tasks (init epoch page_loaded) \<noteq> [] \<and>
   clearAll True (init epoch page_loaded)
     = (None, (init epoch page_loaded)\<lparr>tasks := [], nextId := 1\<rparr>) \<and>
   map id_t (tasks (snd (addTask (epoch 0) ''X'' (Some ''2025-01-01'')
                          (snd (clearAll True (init epoch page_loaded)))))) = [1] \<and>
   tasks page_loaded = [] \<and>
   clearAll True page_loaded = (Some EmptyStore, page_loaded)"
proof -
  have a: "tasks (init epoch page_loaded) \<noteq> []"
    by (simp add: init_eq)
  have b: "tasks page_loaded = []"
    by (simp add: page_loaded_def)
  from clearAll_resets[of "init epoch page_loaded" "epoch 0" True]
       clearAll_resets[of page_loaded "epoch 0" True] a b
  show ?thesis by blast
qed

subsection \<open>Ids and nextId in a session\<close>

lemma map_id_update_first:
  "(\<And>x. id_t (f x) = id_t x) \<Longrightarrow> map id_t (update_first P f xs) = map id_t xs"
  by (induction xs) auto

lemma ids_init: "ids (init clock s) = [1, 2, 3, 4, 5, 6, 7, 8]" "nextId (init clock s) = 9"
  by (simp_all add: ids_def init_eq Task_def)

lemma ids_addTask:
  "(ids (snd (addTask now n d s)) = ids s \<and> nextId (snd (addTask now n d s)) = nextId s) \<or>
   (ids (snd (addTask now n d s)) = ids s @ [nextId s] \<and>
    nextId (snd (addTask now n d s)) = nextId s + 1)"
  by (auto simp: addTask_def ids_def Task_def split: option.splits)

lemma ids_toggleDone: "ids (toggleDone taskId s) = ids s" "nextId (toggleDone taskId s) = nextId s"
  by (auto simp: toggleDone_def ids_def map_id_update_first split: option.splits)

lemma ids_removeTask:
  "set (ids (removeTask taskId confirmed s)) \<subseteq> set (ids s)"
  "distinct (ids s) \<Longrightarrow> distinct (ids (removeTask taskId confirmed s))"
  "nextId (removeTask taskId confirmed s) = nextId s"
  by (auto simp: removeTask_def ids_def distinct_map_filter)

lemma ids_editTask:
  "ids (snd (editTask taskId newName newDate s)) = ids s"
  "nextId (snd (editTask taskId newName newDate s)) = nextId s"
  by (auto simp: editTask_def ids_def Let_def map_id_update_first split: option.splits)

lemma ids_markAllAsCompleted:
  "ids (snd (markAllAsCompleted confirmed s)) = ids s"
  "nextId (snd (markAllAsCompleted confirmed s)) = nextId s"
  by (auto simp: markAllAsCompleted_def ids_def comp_def)

lemma ids_clearCompleted:
  "set (ids (snd (clearCompleted confirmed s))) \<subseteq> set (ids s)"
  "distinct (ids s) \<Longrightarrow> distinct (ids (snd (clearCompleted confirmed s)))"
  "nextId (snd (clearCompleted confirmed s)) = nextId s"
  by (auto simp: clearCompleted_def ids_def Let_def distinct_map_filter)

lemma ids_clearAll:
  "ids (snd (clearAll confirmed s)) = ids s \<and> nextId (snd (clearAll confirmed s)) = nextId s
   \<or> ids (snd (clearAll confirmed s)) = []"
  by (auto simp: clearAll_def ids_def)

lemma ids_ok_step: "ids_ok s \<Longrightarrow> ids_ok (step ev s)"
proof (cases ev)
  case (Init clock)
  then show ?thesis by (simp add: ids_ok_def ids_init)
next
  case (AddTask now n d)
  assume "ids_ok s"
  with ids_addTask[of now n d s] AddTask show ?thesis
    by (fastforce simp: ids_ok_def list_all_iff less_Suc_eq)
next
  case (ToggleDone taskId)
  assume "ids_ok s"
  then show ?thesis using ToggleDone by (simp add: ids_ok_def ids_toggleDone)
next
  case (RemoveTask taskId confirmed)
  assume "ids_ok s"
  then show ?thesis using RemoveTask ids_removeTask[where taskId=taskId and confirmed=confirmed and s=s]
    by (auto simp: ids_ok_def list_all_iff)
next
  case (EditTask taskId newName newDate)
  assume "ids_ok s"
  then show ?thesis using EditTask by (simp add: ids_ok_def ids_editTask)
next
  case (MarkAllAsCompleted confirmed)
  assume "ids_ok s"
  then show ?thesis using MarkAllAsCompleted by (simp add: ids_ok_def ids_markAllAsCompleted)
next
  case (ClearCompleted confirmed)
  assume "ids_ok s"
  then show ?thesis using ClearCompleted ids_clearCompleted[where confirmed=confirmed and s=s]
    by (auto simp: ids_ok_def list_all_iff)
next
  case (ClearAll confirmed)
  assume "ids_ok s"
  then show ?thesis using ClearAll ids_clearAll[of confirmed s]
    by (auto simp: ids_ok_def)
qed

lemma run_Cons: "run (ev # evs) s = run evs (step ev s)" and run_Nil: "run [] s = s"
  by (simp_all add: run_def)

lemma ids_ok_run: "ids_ok s \<Longrightarrow> ids_ok (run evs s)"
  by (induction evs arbitrary: s) (simp_all add: run_Cons run_Nil ids_ok_step)

lemma ids_ok_init: "ids_ok (init clock s)"
  by (simp add: ids_ok_def ids_init)

lemma ids_ok_reachable: "ids_ok (run evs (init clock s))"
  by (rule ids_ok_run[OF ids_ok_init])

lemma below_step:
  assumes "list_all (\<lambda>i. i < nextId s) (ids s)"
  shows "list_all (\<lambda>i. i < nextId (step ev s)) (ids (step ev s))"
proof (cases ev)
  case (Init clock)
  then show ?thesis by (simp add: ids_init)
next
  case (AddTask now n d)
  with assms ids_addTask[of now n d s] show ?thesis
    by (fastforce simp: list_all_iff less_Suc_eq)
next
  case (ToggleDone taskId)
  with assms show ?thesis by (simp add: ids_toggleDone)
next
  case (RemoveTask taskId confirmed)
  with assms ids_removeTask[where taskId=taskId and confirmed=confirmed and s=s] show ?thesis
    by (auto simp: list_all_iff)
next
  case (EditTask taskId newName newDate)
  with assms show ?thesis by (simp add: ids_editTask)
next
  case (MarkAllAsCompleted confirmed)
  with assms show ?thesis by (simp add: ids_markAllAsCompleted)
next
  case (ClearCompleted confirmed)
  with assms ids_clearCompleted[where confirmed=confirmed and s=s] show ?thesis
    by (auto simp: list_all_iff)
next
  case (ClearAll confirmed)
  with assms ids_clearAll[of confirmed s] show ?thesis
    by auto
qed

lemma run_example:
  "run [RemoveTask 8 True, AddTask (epoch 0) ''Museo Morandi'' (Some ''2025-01-01'')]
       (init epoch page_loaded) =
   \<lparr>tasks =
      [Task (epoch 0) 1 ''Museo Civico Archeologico'' ''2024-02-15'' False,
       Task (epoch 1) 2 ''Pinacoteca Nazionale di Bologna'' ''2024-02-20'' True,
       Task (epoch 2) 3 ''Museo della Storia di Bologna'' ''2024-03-01'' False,
       Task (epoch 3) 4 ''MAMbo - Museo d'Arte Moderna di Bologna'' ''2024-03-10'' False,
       Task (epoch 4) 5 ''Museo Internazionale della Musica'' ''2024-03-15'' True,
       Task (epoch 5) 6 ''Museo Civico Medievale'' ''2024-03-20'' False,
       Task (epoch 6) 7 ''Museo di Palazzo Poggi'' ''2024-04-01'' False,
       Task (epoch 0) 9 ''Museo Morandi'' ''2025-01-01'' False],
    nextId = 10\<rparr>"
proof -
  have "trim ''Museo Morandi'' = ''Museo Morandi''"
    by (simp add: trim_def isWhiteSpace_def)
  then show ?thesis
    by (simp add: run_def init_eq removeTask_def addTask_def page_loaded_def Task_def)
qed

lemma fold_max_ge: "a \<le> fold max xs (a::nat)" "x \<in> set xs \<Longrightarrow> x \<le> fold max xs a"
proof (induction xs arbitrary: a)
  case Nil
  { case 1 show ?case by simp }
  { case 2 then show ?case by simp }
next
  case (Cons y ys)
  { case 1
    have "a \<le> max y a" by simp
    also have "\<dots> \<le> fold max ys (max y a)" by (rule Cons.IH(1))
    finally show ?case by simp }
  { case 2
    show ?case
    proof (cases "x = y")
      case True
      have "x \<le> max y a" using True by simp
      also have "\<dots> \<le> fold max ys (max y a)" by (rule Cons.IH(1))
      finally show ?thesis by simp
    next
      case False
      with 2 have "x \<in> set ys" by simp
      then show ?thesis using Cons.IH(2)[of "max y a"] by simp
    qed }
qed

lemma updateNextId_above: "list_all (\<lambda>t. id_t t < nextId (updateNextId s)) (tasks (updateNextId s))"
  using fold_max_ge(2)[of _ "map id_t (tasks s)" 0]
  by (auto simp: updateNextId_def Math_max_def list_all_iff less_Suc_eq_le)

text \<open>
  C10: in every store that a session reaches after \<open>init\<close>, \<open>nextId\<close> is greater than
  the id of every museum in the store; every single function keeps it so, from any
  store where it holds; \<open>updateNextId\<close> makes it so in any store; and \<open>removeTask\<close>
  leaves \<open>nextId\<close> as it was.
\<close>

theorem nextId_above_every_id:
  "(\<forall>t \<in> set (tasks (run evs (init clock s))). id_t t < nextId (run evs (init clock s))) \<and>
   ((\<forall>t \<in> set (tasks s'). id_t t < nextId s') \<longrightarrow>
      (\<forall>t \<in> set (tasks (step ev s')). id_t t < nextId (step ev s'))) \<and>
   (\<forall>t \<in> set (tasks (updateNextId s')). id_t t < nextId (updateNextId s')) \<and>
   nextId (removeTask taskId confirmed s') = nextId s'"
proof -
  have "ids_ok (run evs (init clock s))"
    by (rule ids_ok_reachable)
  then have 1: "\<forall>t \<in> set (tasks (run evs (init clock s))). id_t t < nextId (run evs (init clock s))"
    by (simp add: ids_ok_def ids_def list_all_iff)
  have 2: "(\<forall>t \<in> set (tasks s'). id_t t < nextId s') \<longrightarrow>
      (\<forall>t \<in> set (tasks (step ev s')). id_t t < nextId (step ev s'))"
    using below_step[of s' ev] by (simp add: ids_def list_all_iff)
  have 3: "\<forall>t \<in> set (tasks (updateNextId s')). id_t t < nextId (updateNextId s')"
    using updateNextId_above[of s'] by (simp add: list_all_iff)
  from 1 2 3 show ?thesis by (simp add: ids_removeTask)
qed

text \<open>
  C10 on the seed store: the museum with id 8 is removed and a new one is added. The new
  museum gets the id 9, not 8 again, and \<open>nextId\<close> is 10.
\<close>

theorem nextId_above_every_id_witness:
  "list_all (\<lambda>t. id_t t < nextId (run [RemoveTask 8 True,
        AddTask (epoch 0) ''Museo Morandi'' (Some ''2025-01-01'')] (init epoch page_loaded)))
     (tasks (run [RemoveTask 8 True,
        AddTask (epoch 0) ''Museo Morandi'' (Some ''2025-01-01'')] (init epoch page_loaded))) \<and>
   map id_t (tasks (run [RemoveTask 8 True,
        AddTask (epoch 0) ''Museo Morandi'' (Some ''2025-01-01'')] (init epoch page_loaded)))
     = [1, 2, 3, 4, 5, 6, 7, 9] \<and>
   nextId (run [RemoveTask 8 True,
        AddTask (epoch 0) ''Museo Morandi'' (Some ''2025-01-01'')] (init epoch page_loaded)) = 10 \<and>
   list_all (\<lambda>t. id_t t < nextId (init epoch page_loaded)) (tasks (init epoch page_loaded)) \<and>
   list_all (\<lambda>t. id_t t < nextId (step (RemoveTask 8 True) (init epoch page_loaded)))
     (tasks (step (RemoveTask 8 True) (init epoch page_loaded))) \<and>
   nextId (removeTask 8 True (init epoch page_loaded)) = 9"
proof -
  have a: "nextId (init epoch page_loaded) = 9"
    by (simp add: init_eq)
  have b: "list_all (\<lambda>t. id_t t < nextId (init epoch page_loaded)) (tasks (init epoch page_loaded))"
    by (simp add: init_eq Task_def)
  from nextId_above_every_id[of "[RemoveTask 8 True,
        AddTask (epoch 0) ''Museo Morandi'' (Some ''2025-01-01'')]" epoch page_loaded
        "init epoch page_loaded" "RemoveTask 8 True" 8 True] a b
  show ?thesis
    by (auto simp: list_all_iff run_example Task_def)
qed

lemma valid_add_step:
  assumes "valid_add ev"
  shows "tasks (step ev s) = tasks s @ [last (tasks (step ev s))] \<and>
         id_t (last (tasks (step ev s))) = nextId s \<and>
         nextId (step ev s) = Suc (nextId s)"
proof (cases ev)
  case (AddTask now n d)
  with assms show ?thesis
    by (auto simp: addTask_def Task_def)
qed (use assms in simp_all)

lemma valid_adds_run:
  assumes "\<forall>ev \<in> set adds. valid_add ev"
  shows "take (length (tasks s)) (tasks (run adds s)) = tasks s \<and>
         map id_t (drop (length (tasks s)) (tasks (run adds s)))
           = [nextId s ..< nextId s + length adds] \<and>
         nextId (run adds s) = nextId s + length adds"
  using assms
proof (induction adds arbitrary: s)
  case Nil
  then show ?case by (simp add: run_Nil)
next
  case (Cons a adds)
  let ?s1 = "step a s"
  from Cons.prems have va: "valid_add a" and rest: "\<forall>ev \<in> set adds. valid_add ev"
    by simp_all
  from valid_add_step[OF va, of s] obtain t where
    t: "tasks ?s1 = tasks s @ [t]" "id_t t = nextId s" "nextId ?s1 = Suc (nextId s)"
    by blast
  from Cons.IH[OF rest, of ?s1] have
    ih1: "take (length (tasks ?s1)) (tasks (run adds ?s1)) = tasks ?s1" and
    ih2: "map id_t (drop (length (tasks ?s1)) (tasks (run adds ?s1)))
            = [nextId ?s1 ..< nextId ?s1 + length adds]" and
    ih3: "nextId (run adds ?s1) = nextId ?s1 + length adds"
    by simp_all
  have split: "tasks (run adds ?s1) = tasks ?s1 @ drop (length (tasks ?s1)) (tasks (run adds ?s1))"
    using ih1 append_take_drop_id[of "length (tasks ?s1)" "tasks (run adds ?s1)"] by simp
  then have whole: "tasks (run adds ?s1) =
      tasks s @ t # drop (length (tasks ?s1)) (tasks (run adds ?s1))"
    using t(1) by simp
  have c1: "take (length (tasks s)) (tasks (run (a # adds) s)) = tasks s"
    unfolding run_Cons by (subst whole) simp
  have "drop (length (tasks s)) (tasks (run (a # adds) s)) =
          t # drop (length (tasks ?s1)) (tasks (run adds ?s1))"
    unfolding run_Cons by (subst whole) simp
  moreover have "[nextId s ..< nextId s + length (a # adds)] =
          nextId s # [Suc (nextId s) ..< Suc (nextId s) + length adds]"
    using upt_conv_Cons[of "nextId s" "nextId s + length (a # adds)"] by simp
  ultimately have c2: "map id_t (drop (length (tasks s)) (tasks (run (a # adds) s)))
           = [nextId s ..< nextId s + length (a # adds)]"
    using ih2 t(2,3) by (simp only: list.map)
  have c3: "nextId (run (a # adds) s) = nextId s + length (a # adds)"
    using ih3 t(3) by (simp add: run_Cons)
  from c1 c2 c3 show ?case by blast
qed

lemma run_append: "run (evs @ evs') s = run evs' (run evs s)"
  by (simp add: run_def)

text \<open>
  C5: for every sequence of calls of \<open>addTask\<close> with a name that is not blank and a
  truthy date, from any store: the museums already there stay as they are, the new ones
  follow them in the order of the calls with the ids \<open>nextId\<close>, \<open>nextId + 1\<close>, ...,
  which is strictly increasing; and in every store that a session reaches after
  \<open>init\<close>, also after such calls, no two museums have the same id.
\<close>

theorem valid_adds_ids:
  assumes "\<forall>ev \<in> set adds. valid_add ev"
  shows "take (length (tasks s0)) (tasks (run adds s0)) = tasks s0 \<and>
         map id_t (drop (length (tasks s0)) (tasks (run adds s0)))
           = [nextId s0 ..< nextId s0 + length adds] \<and>
         sorted_wrt (<) (map id_t (drop (length (tasks s0)) (tasks (run adds s0)))) \<and>
         distinct (map id_t (tasks (run evs (init clock s)))) \<and>
         distinct (map id_t (tasks (run adds (run evs (init clock s)))))"
proof -
  have d: "distinct (map id_t (tasks (run evs' (init clock s))))" for evs'
    using ids_ok_reachable[of evs' clock s] by (simp add: ids_ok_def ids_def)
  have "distinct (map id_t (tasks (run adds (run evs (init clock s)))))"
    using d[of "evs @ adds"] by (simp add: run_append)
  with valid_adds_run[OF assms, of s0] d[of evs] show ?thesis
    by simp
qed

lemma trim_examples:
  "trim ''Museo Morandi'' = ''Museo Morandi''"
  "trim '' Museo Ducati '' = ''Museo Ducati''"
  by (simp_all add: trim_def isWhiteSpace_def)

text \<open>
  C5 on the seed store: two museums are added and get the ids 9 and 10; and after the
  museum with id 8 was removed, the same two calls leave all ids different.
\<close>

theorem valid_adds_ids_witness:
  "valid_add (AddTask (epoch 0) ''Museo Morandi'' (Some ''2025-01-01'')) \<and>
   valid_add (AddTask (epoch 0) '' Museo Ducati '' (Some ''2025-01-02'')) \<and>
   take 8 (tasks (run [AddTask (epoch 0) ''Museo Morandi'' (Some ''2025-01-01''),
                      AddTask (epoch 0) '' Museo Ducati '' (Some ''2025-01-02'')]
                 (init epoch page_loaded))) = tasks (init epoch page_loaded) \<and>
   map id_t (drop 8 (tasks (run [AddTask (epoch 0) ''Museo Morandi'' (Some ''2025-01-01''),
                      AddTask (epoch 0) '' Museo Ducati '' (Some ''2025-01-02'')]
                 (init epoch page_loaded)))) = [9, 10] \<and>
   distinct (map id_t (tasks (run [AddTask (epoch 0) ''Museo Morandi'' (Some ''2025-01-01''),
                      AddTask (epoch 0) '' Museo Ducati '' (Some ''2025-01-02'')]
                 (run [RemoveTask 8 True] (init epoch page_loaded)))))"
proof -
  have h: "\<forall>ev \<in> set [AddTask (epoch 0) ''Museo Morandi'' (Some ''2025-01-01''),
                       AddTask (epoch 0) '' Museo Ducati '' (Some ''2025-01-02'')]. valid_add ev"
    by (simp add: trim_examples)
  have u: "[9 ..< 11] = [9, 10::nat]"
    by (simp add: upt_rec)
  from valid_adds_ids[OF h, of "init epoch page_loaded" "[RemoveTask 8 True]" epoch page_loaded] h
  show ?thesis
    by (simp add: length_tasks_init ids_init u)
qed

subsection \<open>The dates in a session\<close>

lemma seed_dates_ok: "list_all (\<lambda>t. dateRegex_test (date t)) (tasks (init clock s))"
  by (simp add: init_eq Task_def dateRegex_test_def eval_nat_numeral isDigit_def)

lemma set_update_first: "set (update_first P f xs) \<subseteq> set xs \<union> f ` set xs"
  by (induction xs) auto

lemma dates_update_first:
  assumes "list_all (\<lambda>t. Q (date t)) xs" and "\<And>x. Q (date x) \<Longrightarrow> Q (date (f x))"
  shows "list_all (\<lambda>t. Q (date t)) (update_first P f xs)"
  using assms set_update_first[of P f xs] by (auto simp: list_all_iff)

lemma dates_step:
  assumes "list_all (\<lambda>t. dateRegex_test (date t)) (tasks s)" and "add_date_ok ev"
  shows "list_all (\<lambda>t. dateRegex_test (date t)) (tasks (step ev s))"
proof (cases ev)
  case (Init clock)
  then show ?thesis by (simp add: seed_dates_ok)
next
  case (AddTask now n d)
  with assms show ?thesis
    by (auto simp: addTask_def Task_def split: option.splits)
next
  case (ToggleDone taskId)
  with assms(1) show ?thesis
    by (auto simp: toggleDone_def intro!: dates_update_first split: option.splits)
next
  case (RemoveTask taskId confirmed)
  with assms(1) show ?thesis
    by (auto simp: removeTask_def list_all_iff)
next
  case (EditTask taskId newName newDate)
  have n: "list_all (\<lambda>t. dateRegex_test (date t))
             (update_first (\<lambda>t. id_t t = taskId) (\<lambda>t. t\<lparr>name := x\<rparr>) (tasks s))" for x
    using assms(1) by (rule dates_update_first) simp
  have d: "dateRegex_test nd \<Longrightarrow> list_all (\<lambda>t. dateRegex_test (date t)) xs \<Longrightarrow>
           list_all (\<lambda>t. dateRegex_test (date t))
             (update_first (\<lambda>t. id_t t = taskId) (\<lambda>t. t\<lparr>date := nd\<rparr>) xs)"
    for nd and xs :: "task list"
    using set_update_first[of "\<lambda>t. id_t t = taskId" "\<lambda>t. t\<lparr>date := nd\<rparr>" xs]
    by (auto simp: list_all_iff)
  from EditTask assms(1) n d show ?thesis
    by (auto simp: editTask_def Let_def split: option.splits)
next
  case (MarkAllAsCompleted confirmed)
  with assms(1) show ?thesis
    by (auto simp: markAllAsCompleted_def list_all_iff)
next
  case (ClearCompleted confirmed)
  with assms(1) show ?thesis
    by (auto simp: clearCompleted_def Let_def list_all_iff)
next
  case (ClearAll confirmed)
  with assms(1) show ?thesis
    by (auto simp: clearAll_def)
qed

lemma dates_run:
  "list_all (\<lambda>t. dateRegex_test (date t)) (tasks s) \<Longrightarrow> \<forall>ev \<in> set evs. add_date_ok ev \<Longrightarrow>
   list_all (\<lambda>t. dateRegex_test (date t)) (tasks (run evs s))"
  by (induction evs arbitrary: s) (simp_all add: run_Cons run_Nil dates_step)

lemma dateRegex_2025_01_01: "dateRegex_test ''2025-01-01''"
  by (simp add: dateRegex_test_def eval_nat_numeral isDigit_def)

text \<open>
  C4, as the claim states it: in every store that a session reaches, every date matches
  the pattern. \<open>addTask\<close> only asks for a date that is not empty: after the seed store
  gets a museum with the date \<open>15/02/2024\<close>, the last museum of the store has a date
  that the pattern refuses.
\<close>

theorem add_keeps_any_date:
  "\<not> dateRegex_test (date (last (tasks (run
       [AddTask (epoch 0) ''Museo Morandi'' (Some ''15/02/2024'')] (init epoch page_loaded)))))"
  by (simp add: run_def addTask_def trim_examples Task_def dateRegex_slashes)

text \<open>
  C4, amended: in every store that a session reaches after \<open>init\<close> through calls of
  \<open>init\<close>, \<open>addTask\<close>, \<open>editTask\<close>, \<open>toggleDone\<close>, \<open>removeTask\<close> and the bulk
  operations, in which every call of \<open>addTask\<close> is given a date that matches the
  pattern (or none), every date matches the pattern.
\<close>

theorem dates_match_when_adds_do:
  assumes "\<forall>ev \<in> set evs. add_date_ok ev"
  shows "\<forall>t \<in> set (tasks (run evs (init clock s))). dateRegex_test (date t)"
  using dates_run[OF seed_dates_ok assms] by (simp add: list_all_iff)

text \<open>
  C4, amended, on the seed store: a museum is added with a date of the right shape,
  the museum with id 1 gets the date \<open>2025-13-40\<close>, and the visited museums are cleared.
\<close>

theorem dates_match_when_adds_do_witness:
  "add_date_ok (AddTask (epoch 0) ''Museo Morandi'' (Some ''2025-01-01'')) \<and>
   add_date_ok (EditTask 1 None (Some ''2025-13-40'')) \<and>
   add_date_ok (ClearCompleted True) \<and>
   list_all (\<lambda>t. dateRegex_test (date t))
     (tasks (run [AddTask (epoch 0) ''Museo Morandi'' (Some ''2025-01-01''),
                  EditTask 1 None (Some ''2025-13-40''), ClearCompleted True]
                 (init epoch page_loaded)))"
proof -
  have h: "\<forall>ev \<in> set [AddTask (epoch 0) ''Museo Morandi'' (Some ''2025-01-01''),
                  EditTask 1 None (Some ''2025-13-40''), ClearCompleted True]. add_date_ok ev"
    by (simp add: dateRegex_2025_01_01)
  from dates_match_when_adds_do[OF h, of epoch page_loaded] h
  show ?thesis by (simp add: list_all_iff)
qed

subsection \<open>The Map script computes what the array script computes\<close>

lemma values_entries: "Map_values (entries ts) = ts"
  by (simp add: Map_values_def entries_def comp_def)

lemma keys_entries: "map fst (entries ts) = map id_t ts"
  by (simp add: entries_def comp_def)

lemma entries_values: "map fst m = map id_t (Map_values m) \<Longrightarrow> entries (Map_values m) = m"
  by (induction m) (auto simp: entries_def Map_values_def)

lemma values_of_of_array: "values_of (of_array a) = a"
  by (simp add: values_of_def of_array_def values_entries)

lemma keyed_of_array: "keyed (of_array a) \<longleftrightarrow> ids_ok a"
  by (simp add: keyed_def values_of_of_array) (simp add: of_array_def values_entries keys_entries)

lemma of_array_values_of: "keyed M \<Longrightarrow> of_array (values_of M) = M"
  by (simp add: keyed_def of_array_def values_of_def entries_values)

lemma get_entries: "Map_get k (entries ts) = find (\<lambda>t. id_t t = k) ts"
  by (induction ts) (auto simp: Map_get_def entries_def)

lemma set_entries:
  "k \<notin> set (map id_t ts) \<Longrightarrow> id_t v = k \<Longrightarrow> Map_set k v (entries ts) = entries (ts @ [v])"
  by (simp add: Map_set_def keys_entries) (simp add: entries_def)

lemma delete_entries: "Map_delete k (entries ts) = entries (filter (\<lambda>t. id_t t \<noteq> k) ts)"
  by (induction ts) (auto simp: Map_delete_def entries_def)

lemma assign_entries:
  "(\<And>t. id_t (f t) = id_t t) \<Longrightarrow>
   Map_assign k f (entries ts) = entries (update_first (\<lambda>t. id_t t = k) f ts)"
  by (induction ts) (auto simp: Map_assign_def entries_def)

lemma map_entries:
  "(\<And>t. id_t (g t) = id_t t) \<Longrightarrow> map (\<lambda>(k, t). (k, g t)) (entries ts) = entries (map g ts)"
  by (simp add: entries_def)

lemma fold_push: "fold (\<lambda>t acc. if P t then acc @ [t] else acc) xs acc = acc @ filter P xs"
  by (induction xs arbitrary: acc) auto

lemma fold_count:
  "fold (\<lambda>t c. if completed t then c + 1 else c) xs (c0::nat) = c0 + length (filter completed xs)"
  by (induction xs arbitrary: c0) auto

lemma fold_stats:
  "fold (\<lambda>t (totalCount, completedCount).
           (totalCount + 1, if completed t then completedCount + 1 else completedCount))
        xs (a, b) = (a + length xs, b + length (filter completed xs))"
  by (induction xs arbitrary: a b) auto

lemma fold_delete:
  "fold (\<lambda>(k, t) m. if completed t then Map_delete k m else m) xs m =
   filter (\<lambda>(k', v'). k' \<notin> fst ` {e \<in> set xs. completed (snd e)}) m"
proof (induction xs arbitrary: m)
  case Nil
  then show ?case by simp
next
  case (Cons x xs)
  obtain k t where x: "x = (k, t)" by (cases x)
  show ?case
  proof (cases "completed t")
    case True
    have "{e \<in> set (x # xs). completed (snd e)} = insert (k, t) {e \<in> set xs. completed (snd e)}"
      using True x by auto
    then have "fst ` {e \<in> set (x # xs). completed (snd e)} =
          insert k (fst ` {e \<in> set xs. completed (snd e)})"
      by simp
    then show ?thesis
      using True x Cons.IH[of "Map_delete k m"]
      by (auto simp: Map_delete_def intro!: filter_cong)
  next
    case False
    have "{e \<in> set (x # xs). completed (snd e)} = {e \<in> set xs. completed (snd e)}"
      using False x by auto
    then have "fst ` {e \<in> set (x # xs). completed (snd e)} = fst ` {e \<in> set xs. completed (snd e)}"
      by simp
    then show ?thesis
      using False x Cons.IH[of m] by simp
  qed
qed

lemma clear_entries:
  assumes "distinct (map id_t ts)"
  shows "fold (\<lambda>(k, t) m. if completed t then Map_delete k m else m) (entries ts) (entries ts)
         = entries (filter (\<lambda>t. \<not> completed t) ts)"
proof -
  have inj: "inj_on id_t (set ts)"
    using assms by (simp add: distinct_map)
  have "filter (\<lambda>(k', v'). k' \<notin> fst ` {e \<in> set (entries ts). completed (snd e)}) (entries ts)
        = entries (filter (\<lambda>t. \<not> completed t) ts)"
    unfolding entries_def filter_map comp_def
  proof (rule arg_cong[where f = "map (\<lambda>t. (id_t t, t))"], rule filter_cong[OF refl])
    fix x assume x: "x \<in> set ts"
    have "id_t x \<in> fst ` {e \<in> set (map (\<lambda>t. (id_t t, t)) ts). completed (snd e)}
          \<longleftrightarrow> completed x"
    proof
      assume "id_t x \<in> fst ` {e \<in> set (map (\<lambda>t. (id_t t, t)) ts). completed (snd e)}"
      then obtain t where "t \<in> set ts" "completed t" "id_t t = id_t x" by force
      with inj x show "completed x" by (auto dest: inj_onD)
    next
      assume "completed x"
      with x show "id_t x \<in> fst ` {e \<in> set (map (\<lambda>t. (id_t t, t)) ts). completed (snd e)}"
        by force
    qed
    then show "(case (id_t x, x) of (k', v') \<Rightarrow>
                 k' \<notin> fst ` {e \<in> set (map (\<lambda>t. (id_t t, t)) ts). completed (snd e)})
               = (\<not> completed x)"
      by simp
  qed
  then show ?thesis by (simp add: fold_delete)
qed

lemma react_m_of_array:
  assumes "ids_ok a" and "\<not> is_Init ev"
  shows "react_m ev (of_array a) = (fst (react ev a), of_array (snd (react ev a)))"
proof (cases ev)
  case (Init clock)
  with assms show ?thesis by simp
next
  case (AddTask now n d)
  have "nextId a \<notin> set (map id_t (tasks a))"
    using assms(1) by (auto simp: ids_ok_def ids_def list_all_iff)
  then have "Map_set (nextId a) (Task now (nextId a) n' dv False) (entries (tasks a))
             = entries (tasks a @ [Task now (nextId a) n' dv False])" for n' dv
    by (rule set_entries) (simp add: Task_def)
  with AddTask show ?thesis
    by (auto simp: addTask_m_def addTask_def of_array_def split: option.splits)
next
  case (ToggleDone taskId)
  then show ?thesis
    by (auto simp: toggleDone_m_def toggleDone_def of_array_def get_entries assign_entries
        split: option.splits)
next
  case (RemoveTask taskId confirmed)
  then show ?thesis
    by (auto simp: removeTask_m_def removeTask_def of_array_def delete_entries)
next
  case (EditTask taskId newName newDate)
  then show ?thesis
    by (auto simp: editTask_m_def editTask_def of_array_def get_entries assign_entries Let_def
        split: option.splits)
next
  case (MarkAllAsCompleted confirmed)
  then show ?thesis
    by (auto simp: markAllAsCompleted_m_def markAllAsCompleted_def of_array_def map_entries)
       (simp_all add: entries_def)
next
  case (ClearCompleted confirmed)
  have "distinct (map id_t (tasks a))"
    using assms(1) by (simp add: ids_ok_def ids_def)
  then show ?thesis
    using ClearCompleted
    by (auto simp: clearCompleted_m_def clearCompleted_def of_array_def Let_def fold_count
        values_entries clear_entries)
next
  case (ClearAll confirmed)
  then show ?thesis
    by (auto simp: clearAll_m_def clearAll_def of_array_def entries_def)
qed

lemma step_react: "step ev s = snd (react ev s)"
  by (cases ev) simp_all

text \<open>
  One step of the Map script, on a store whose entries stand under the ids of their
  Tasks with ids as \<open>ids_ok\<close> says: it shows the alert that the array script shows,
  the array of its values is the array that the array script leaves, and the store it
  leaves is of the same kind again. \<open>init\<close> is left out: it runs once, when the page
  has loaded, and there the scripts differ (the array is replaced, the Map is not
  cleared).
\<close>

theorem map_script_step:
  assumes "keyed M" and "\<not> is_Init ev"
  shows "fst (react_m ev M) = fst (react ev (values_of M)) \<and>
         values_of (snd (react_m ev M)) = snd (react ev (values_of M)) \<and>
         keyed (snd (react_m ev M))"
proof -
  from assms(1) have ok: "ids_ok (values_of M)" and M: "of_array (values_of M) = M"
    by (simp_all add: keyed_def of_array_values_of)
  have r: "react_m ev M = (fst (react ev (values_of M)), of_array (snd (react ev (values_of M))))"
    using react_m_of_array[OF ok assms(2)] M by simp
  have "ids_ok (snd (react ev (values_of M)))"
    using ids_ok_step[OF ok, of ev] by (simp add: step_react)
  with r show ?thesis
    by (simp add: values_of_of_array keyed_of_array)
qed

text \<open>What the Map script lists and counts is what the array script lists and counts.\<close>

theorem map_script_reads:
  "render_m env statusFilter searchInput sortBy M
     = render env statusFilter searchInput sortBy (values_of M) \<and>
   updateStats_m M = updateStats (values_of M)"
proof
  show "render_m env statusFilter searchInput sortBy M
     = render env statusFilter searchInput sortBy (values_of M)"
    by (simp add: render_m_def render_def values_of_def fold_push Let_def)
  show "updateStats_m M = updateStats (values_of M)"
    unfolding updateStats_m_def updateStats_def values_of_def fold_stats Let_def
    by simp
qed

lemma init_m_eq:
  "init_m clock (s\<lparr>tasksMap := []\<rparr>) = s\<lparr>tasksMap := entries
      [Task (clock 0) 1 ''Museo Civico Archeologico'' ''2025-02-15'' False,
       Task (clock 1) 2 ''Pinacoteca Nazionale di Bologna'' ''2025-02-20'' True,
       Task (clock 2) 3 ''Museo della Storia di Bologna'' ''2025-03-01'' False,
       Task (clock 3) 4 ''MAMbo - Museo d'Arte Moderna di Bologna'' ''2025-03-10'' False,
       Task (clock 4) 5 ''Museo Internazionale della Musica'' ''2025-03-15'' True,
       Task (clock 5) 6 ''Museo Civico Medievale'' ''2025-03-20'' False,
       Task (clock 6) 7 ''Museo di Palazzo Poggi'' ''2025-04-01'' False,
       Task (clock 7) 8 ''Museo della Tappezzeria'' ''2025-04-05'' False],
     nextId_m := 9\<rparr>"
  by (simp add: init_m_def updateNextId_m_def initialMuseums_m_def Map_set_def Task_def
      entries_def eval_nat_numeral)

text \<open>
  \<open>init\<close> of the Map script on an empty Map: the same ids, names, flags and times as in
  the array script, the same \<open>nextId\<close>, and the dates of the year 2025.
\<close>

theorem map_script_init:
  "keyed (init_m clock (M\<lparr>tasksMap := []\<rparr>)) \<and>
   nextId (values_of (init_m clock (M\<lparr>tasksMap := []\<rparr>))) = nextId (init clock s) \<and>
   map (\<lambda>t. (id_t t, name t, completed t, createdAt t))
       (tasks (values_of (init_m clock (M\<lparr>tasksMap := []\<rparr>))))
     = map (\<lambda>t. (id_t t, name t, completed t, createdAt t)) (tasks (init clock s)) \<and>
   map date (tasks (values_of (init_m clock (M\<lparr>tasksMap := []\<rparr>)))) =
     [''2025-02-15'', ''2025-02-20'', ''2025-03-01'', ''2025-03-10'',
      ''2025-03-15'', ''2025-03-20'', ''2025-04-01'', ''2025-04-05'']"
proof -
  have "keyed (init_m clock (M\<lparr>tasksMap := []\<rparr>))"
    by (simp add: init_m_eq keyed_def values_of_def values_entries keys_entries ids_ok_def
        ids_def Task_def)
  then show ?thesis
    by (simp add: init_m_eq init_eq values_of_def values_entries Task_def)
qed

lemma run_m_Cons: "run_m (ev # evs) s = run_m evs (snd (react_m ev s))"
  and run_m_Nil: "run_m [] s = s"
  by (simp_all add: run_m_def)

text \<open>A session of the Map script after \<open>init\<close> is the session of the array script.\<close>

theorem map_script_session:
  assumes "keyed M" and "list_all (\<lambda>ev. \<not> is_Init ev) evs"
  shows "keyed (run_m evs M) \<and> values_of (run_m evs M) = run evs (values_of M)"
  using assms
proof (induction evs arbitrary: M)
  case Nil
  then show ?case by (simp add: run_m_Nil run_Nil)
next
  case (Cons ev evs)
  from Cons.prems have ev: "\<not> is_Init ev" and evs: "list_all (\<lambda>ev. \<not> is_Init ev) evs"
    by simp_all
  from map_script_step[OF Cons.prems(1) ev]
  have k: "keyed (snd (react_m ev M))"
    and v: "values_of (snd (react_m ev M)) = step ev (values_of M)"
    by (simp_all add: step_react)
  from Cons.IH[OF k evs] v show ?case
    by (simp add: run_m_Cons run_Cons)
qed

end
